theory Spec2Isabelle
  imports Main "HOL-Library.Word" "HOL-Library.Sublist"
begin

section \<open>Graceful shutdown of a connection-oriented server (package manners)\<close>

text \<open>
  \<^verbatim>\<open>src/server.go\<close> holds two versions of the package's server file. The first
  (lines 1-391) keeps each connection's last HTTP state in the connection object
  (\<^verbatim>\<open>gconn.lastHTTPState\<close>) and closes the \<^verbatim>\<open>shutdown\<close> channel in \<^verbatim>\<open>Close\<close>; the second
  (lines 392-679) keeps a map \<^verbatim>\<open>lastConnState\<close> on the server and makes \<^verbatim>\<open>Close\<close> a
  receive on the channel. Definitions of the first version carry the suffix 1, those of
  the second the suffix 2.

  A server is followed from its construction through one call of \<^verbatim>\<open>Serve\<close>: the fields
  that belong to that call (the flag \<^verbatim>\<open>closing\<close>, the goroutine waiting on the channel,
  the hook found on the wrapped server) are fields of the server here. A server that is
  served a second time is not described.
\<close>

subsection \<open>Data shared by both versions\<close>

text \<open>\<^verbatim>\<open>http.ConnState\<close>, in the order of its constants; \<^verbatim>\<open>StateNew\<close> is the zero value.\<close>

datatype ConnState = StateNew | StateActive | StateIdle | StateHijacked | StateClosed

text \<open>
  Calls the server makes on objects it does not own, in the order it makes them:
  \<^verbatim>\<open>conn.Close()\<close>, the injected \<^verbatim>\<open>stateHandler(conn, old, new)\<close>, the \<^verbatim>\<open>ConnState\<close> hook
  found on the wrapped \<^verbatim>\<open>http.Server\<close>, \<^verbatim>\<open>SetKeepAlivesEnabled\<close> and \<^verbatim>\<open>listener.Close()\<close>.
\<close>

datatype 'c call =
    ConnClose 'c
  | StateHandlerCall 'c ConnState ConnState
  | ConnStateCall 'c ConnState
  | SetKeepAlivesEnabled bool
  | ListenerClose

text \<open>A call either returns or panics; both leave a state behind.\<close>

datatype 's outcome = Returned 's | Panicked 's

fun final :: "'s outcome \<Rightarrow> 's" where
  "final (Returned s) = s"
| "final (Panicked s) = s"

text \<open>What the serving engine and the host do to a running server.\<close>

datatype 'c event = Notify 'c ConnState | CloseCall

subsection \<open>Second version: the server and its drain counter\<close>

text \<open>
  The \<^verbatim>\<open>shutdown\<close> channel of the second version is unbuffered. \<^verbatim>\<open>Serve\<close> starts a
  goroutine that sends \<^verbatim>\<open>true\<close> once and then closes the channel.
\<close>

datatype chan2 = NoSender | SenderWaiting | ChanClosed

text \<open>
  \<^verbatim>\<open>wg2\<close> is the counter of the \<^verbatim>\<open>sync.WaitGroup\<close>, an \<^verbatim>\<open>int32\<close> read with \<^verbatim>\<open>sint\<close>;
  \<^verbatim>\<open>closing2\<close> the \<^verbatim>\<open>int32\<close> flag local to \<^verbatim>\<open>Serve\<close>, \<^verbatim>\<open>originalConnState\<close> tells whether
  the wrapped server had a \<^verbatim>\<open>ConnState\<close> hook (not \<^verbatim>\<open>nil\<close>), \<^verbatim>\<open>calls2\<close> is the log of
  outgoing calls.
\<close>

record 'c GracefulServer2 =
  Addr2 :: string
  shutdown2 :: chan2
  wg2 :: "32 word"
  lastConnState :: "'c \<rightharpoonup> ConnState"
  closing2 :: "32 word"
  originalConnState :: bool
  calls2 :: "'c call list"

text \<open>\<^verbatim>\<open>NewWithServer\<close> (lines 464-471); the argument is the wrapped server's address.\<close>

definition NewWithServer2 :: "string \<Rightarrow> bool \<Rightarrow> 'c GracefulServer2" where
  "NewWithServer2 addr hook =
     \<lparr> Addr2 = addr, shutdown2 = NoSender, wg2 = 0, lastConnState = Map.empty,
       closing2 = 0, originalConnState = hook, calls2 = [] \<rparr>"

text \<open>
  \<^verbatim>\<open>wg.Add(delta)\<close> of \<^verbatim>\<open>sync.WaitGroup\<close>: the counter is updated first, wrapping
  around as an \<^verbatim>\<open>int32\<close> does, and a negative result panics
  (\<^verbatim>\<open>sync: negative WaitGroup counter\<close>); so does an increment of the largest value,
  which leaves the smallest. \<^verbatim>\<open>wg.Done()\<close> is \<^verbatim>\<open>wg.Add(-1)\<close>.
\<close>

definition wgAdd2 :: "32 word \<Rightarrow> 'c GracefulServer2 \<Rightarrow> 'c GracefulServer2 outcome" where
  "wgAdd2 delta s =
     (let s' = s\<lparr>wg2 := wg2 s + delta\<rparr>
      in if sint (wg2 s') < 0 then Panicked s' else Returned s')"

definition StartRoutine2 :: "'c GracefulServer2 \<Rightarrow> 'c GracefulServer2 outcome" where
  "StartRoutine2 s = wgAdd2 1 s"

definition FinishRoutine2 :: "'c GracefulServer2 \<Rightarrow> 'c GracefulServer2 outcome" where
  "FinishRoutine2 s = wgAdd2 (- 1) s"

text \<open>
  The read \<^verbatim>\<open>s.lastConnState[conn]\<close> (line 579): a key that is not in the map reads as
  the zero value, \<^verbatim>\<open>StateNew\<close>.
\<close>

definition lookup2 :: "'c GracefulServer2 \<Rightarrow> 'c \<Rightarrow> ConnState" where
  "lookup2 s conn = (case lastConnState s conn of None \<Rightarrow> StateNew | Some st \<Rightarrow> st)"

text \<open>The \<^verbatim>\<open>switch newState\<close> of the callback (lines 582-611).\<close>

definition switch2 ::
  "'c GracefulServer2 \<Rightarrow> 'c \<Rightarrow> ConnState \<Rightarrow> ConnState \<Rightarrow> 'c GracefulServer2 outcome" where
  "switch2 s conn lastState newState =
     (case newState of
        StateNew \<Rightarrow> StartRoutine2 s
      | StateActive \<Rightarrow> if lastState = StateIdle then StartRoutine2 s else Returned s
      | StateIdle \<Rightarrow>
          FinishRoutine2
            (if closing2 s = 1 then s\<lparr>calls2 := calls2 s @ [ConnClose conn]\<rparr> else s)
      | StateHijacked \<Rightarrow> if lastState \<noteq> StateIdle then FinishRoutine2 s else Returned s
      | StateClosed \<Rightarrow> if lastState \<noteq> StateIdle then FinishRoutine2 s else Returned s)"

text \<open>The map update and the chained hook (lines 613-623).\<close>

definition record2 :: "'c GracefulServer2 \<Rightarrow> 'c \<Rightarrow> ConnState \<Rightarrow> 'c GracefulServer2" where
  "record2 s conn newState =
     (let s' =
        (if newState = StateClosed \<or> newState = StateHijacked
         then s\<lparr>lastConnState := (lastConnState s)(conn := None)\<rparr>
         else s\<lparr>lastConnState := (lastConnState s)(conn \<mapsto> newState)\<rparr>)
      in if originalConnState s'
         then s'\<lparr>calls2 := calls2 s' @ [ConnStateCall conn newState]\<rparr>
         else s')"

text \<open>The \<^verbatim>\<open>ConnState\<close> callback that \<^verbatim>\<open>Serve\<close> installs (lines 577-624).\<close>

definition connState2 ::
  "'c GracefulServer2 \<Rightarrow> 'c \<Rightarrow> ConnState \<Rightarrow> 'c GracefulServer2 outcome" where
  "connState2 s conn newState =
     (case switch2 s conn (lookup2 s conn) newState of
        Panicked s' \<Rightarrow> Panicked s'
      | Returned s' \<Rightarrow> Returned (record2 s' conn newState))"

text \<open>
  \<^verbatim>\<open>Close\<close> (lines 475-478) is the receive \<^verbatim>\<open><-s.shutdown\<close>. With no sender it blocks
  (no value is returned); with the goroutine of \<^verbatim>\<open>Serve\<close> waiting to send it returns
  \<^verbatim>\<open>true\<close> and the goroutine goes on (lines 566-569), which the model lets happen at
  once; on the closed channel it returns the zero value \<^verbatim>\<open>false\<close>.
\<close>

definition Close2 :: "'c GracefulServer2 \<Rightarrow> bool option \<times> 'c GracefulServer2" where
  "Close2 s =
     (case shutdown2 s of
        NoSender \<Rightarrow> (None, s)
      | SenderWaiting \<Rightarrow>
          (Some True,
           s\<lparr>shutdown2 := ChanClosed, closing2 := 1,
             calls2 := calls2 s @ [SetKeepAlivesEnabled False, ListenerClose]\<rparr>)
      | ChanClosed \<Rightarrow> (Some False, s))"

text \<open>One event, and a sequence of events that stops at the first panic.\<close>

definition step2 :: "'c GracefulServer2 \<Rightarrow> 'c event \<Rightarrow> 'c GracefulServer2 outcome" where
  "step2 s ev =
     (case ev of
        Notify conn newState \<Rightarrow> connState2 s conn newState
      | CloseCall \<Rightarrow> Returned (snd (Close2 s)))"

fun run2 :: "'c GracefulServer2 \<Rightarrow> 'c event list \<Rightarrow> 'c GracefulServer2 outcome" where
  "run2 s [] = Returned s"
| "run2 s (ev # evs) =
     (case step2 s ev of
        Panicked s' \<Rightarrow> Panicked s'
      | Returned s' \<Rightarrow> run2 s' evs)"

text \<open>
  Errors: \<^verbatim>\<open>ErrNotExist\<close> is the error that \<^verbatim>\<open>os.IsNotExist\<close> recognises,
  \<^verbatim>\<open>ListenerAlreadyClosed\<close> the error type \<^verbatim>\<open>listenerAlreadyClosed\<close> of the closeable
  listener (declared outside \<^verbatim>\<open>server.go\<close>), \<^verbatim>\<open>Errorf\<close> an error made by
  \<^verbatim>\<open>fmt.Errorf\<close> with its message, \<^verbatim>\<open>OtherError\<close> any other error.
\<close>

datatype error = ErrNotExist | ListenerAlreadyClosed | Errorf string | OtherError string

definition IsNotExist :: "error \<Rightarrow> bool" where
  "IsNotExist e = (e = ErrNotExist)"

text \<open>
  How \<^verbatim>\<open>Serve\<close> ends: it returns an error value (\<^verbatim>\<open>None\<close> is \<^verbatim>\<open>nil\<close>), it is still
  blocked in \<^verbatim>\<open>s.wg.Wait()\<close> after the last event because the counter is not zero, or
  a call has panicked, where the description stops.
\<close>

datatype 's served = ServeReturns "error option" 's | ServeWaits 's | ServePanics 's

text \<open>
  \<^verbatim>\<open>s.wg.Wait()\<close> followed by \<^verbatim>\<open>return nil\<close>: the wait ends as soon as the counter is
  zero; until then the events \<^verbatim>\<open>later\<close> of the connections still open go on.
\<close>

fun Wait2 :: "'c GracefulServer2 \<Rightarrow> 'c event list \<Rightarrow> 'c GracefulServer2 served" where
  "Wait2 s [] = (if wg2 s = 0 then ServeReturns None s else ServeWaits s)"
| "Wait2 s (ev # evs) =
     (if wg2 s = 0 then ServeReturns None s
      else (case step2 s ev of
              Panicked s' \<Rightarrow> ServePanics s'
            | Returned s' \<Rightarrow> Wait2 s' evs))"

text \<open>
  The end of \<^verbatim>\<open>Serve\<close> (lines 640-647): \<^verbatim>\<open>s\<close> is the server when the serving engine
  returns, \<^verbatim>\<open>err\<close> the error it returns, \<^verbatim>\<open>later\<close> what happens after that.
\<close>

definition serveReturn2 ::
  "'c GracefulServer2 \<Rightarrow> error option \<Rightarrow> 'c event list \<Rightarrow> 'c GracefulServer2 served" where
  "serveReturn2 s err later =
     (if err = None \<or> closing2 s = 1 then Wait2 s later else ServeReturns err s)"

subsection \<open>Second version: binding the address\<close>

text \<open>
  The operating system is a record of answers: the error of \<^verbatim>\<open>os.Stat\<close> and of
  \<^verbatim>\<open>os.Remove\<close> for a path (\<^verbatim>\<open>None\<close> is \<^verbatim>\<open>nil\<close>) and the result of \<^verbatim>\<open>net.Listen\<close> for a
  network and an address. The functions below return the system calls they make, in
  order, beside their result.
\<close>

datatype listener = TCPListener string | UnixListener string | GracefulListener listener

datatype syscall = Stat string | Remove string | Listen string string

record os =
  osStat :: "string \<Rightarrow> error option"
  osRemove :: "string \<Rightarrow> error option"
  netListen :: "string \<Rightarrow> string \<Rightarrow> error + listener"

definition isUnixNetwork2 :: "string \<Rightarrow> bool" where
  "isUnixNetwork2 addr = (prefix ''/'' addr \<or> prefix ''.'' addr)"

text \<open>\<^verbatim>\<open>listenToUnix\<close> (lines 484-498), with its named results \<^verbatim>\<open>(listener, err)\<close>.\<close>

definition listenToUnix :: "os \<Rightarrow> string \<Rightarrow> syscall list \<times> (error + listener)" where
  "listenToUnix env bind =
     (case osStat env bind of
        None \<Rightarrow>
          (case osRemove env bind of
             Some e \<Rightarrow> ([Stat bind, Remove bind], Inl e)
           | None \<Rightarrow>
               ([Stat bind, Remove bind, Listen ''unix'' bind], netListen env ''unix'' bind))
      | Some e \<Rightarrow>
          if \<not> IsNotExist e then ([Stat bind], Inl e)
          else ([Stat bind, Listen ''unix'' bind], netListen env ''unix'' bind))"

text \<open>\<^verbatim>\<open>listen\<close> (lines 500-510).\<close>

definition listen :: "os \<Rightarrow> string \<Rightarrow> syscall list \<times> (error + listener)" where
  "listen env bind =
     (if isUnixNetwork2 bind then listenToUnix env bind
      else if CHR '':'' \<in> set bind then ([Listen ''tcp'' bind], netListen env ''tcp'' bind)
      else ([], Inl (Errorf (''error while parsing bind arg '' @ bind))))"




subsection \<open>First version\<close>

text \<open>
  \<^verbatim>\<open>shutdown1\<close> tells whether the \<^verbatim>\<open>shutdown\<close> channel is closed, \<^verbatim>\<open>serving1\<close> whether
  the goroutine of \<^verbatim>\<open>Serve\<close> is waiting on it, \<^verbatim>\<open>stateHandler\<close> and \<^verbatim>\<open>orgConnState\<close>
  whether these callbacks are set (not \<^verbatim>\<open>nil\<close>). \<^verbatim>\<open>lastHTTPState\<close> is the field of that
  name in each connection object, reached through \<^verbatim>\<open>conn.LocalAddr()\<close> (line 246); the
  connections of the model are those the closeable listener hands out, for which the
  type assertion of that line holds.
\<close>

record 'c GracefulServer1 =
  Addr1 :: string
  shutdown1 :: bool
  serving1 :: bool
  wg1 :: "32 word"
  listener1 :: "listener option"
  stateHandler :: bool
  orgConnState :: bool
  lastHTTPState :: "'c \<Rightarrow> ConnState"
  closing1 :: "32 word"
  calls1 :: "'c call list"

definition wgAdd1 :: "32 word \<Rightarrow> 'c GracefulServer1 \<Rightarrow> 'c GracefulServer1 outcome" where
  "wgAdd1 delta s =
     (let s' = s\<lparr>wg1 := wg1 s + delta\<rparr>
      in if sint (wg1 s') < 0 then Panicked s' else Returned s')"

definition StartRoutine1 :: "'c GracefulServer1 \<Rightarrow> 'c GracefulServer1 outcome" where
  "StartRoutine1 s = wgAdd1 1 s"

definition FinishRoutine1 :: "'c GracefulServer1 \<Rightarrow> 'c GracefulServer1 outcome" where
  "FinishRoutine1 s = wgAdd1 (- 1) s"

text \<open>The \<^verbatim>\<open>switch newState\<close> of the callback (lines 247-274).\<close>

definition switch1 ::
  "'c GracefulServer1 \<Rightarrow> 'c \<Rightarrow> ConnState \<Rightarrow> 'c GracefulServer1 outcome" where
  "switch1 s conn newState =
     (case newState of
        StateNew \<Rightarrow> StartRoutine1 s
      | StateActive \<Rightarrow>
          if lastHTTPState s conn = StateIdle then StartRoutine1 s else Returned s
      | StateIdle \<Rightarrow>
          FinishRoutine1
            (if closing1 s = 1 then s\<lparr>calls1 := calls1 s @ [ConnClose conn]\<rparr> else s)
      | StateHijacked \<Rightarrow>
          if lastHTTPState s conn \<noteq> StateIdle then FinishRoutine1 s else Returned s
      | StateClosed \<Rightarrow>
          if lastHTTPState s conn \<noteq> StateIdle then FinishRoutine1 s else Returned s)"

text \<open>The two forwarded calls around the update of \<^verbatim>\<open>lastHTTPState\<close> (lines 275-281).\<close>

definition forward1 :: "'c GracefulServer1 \<Rightarrow> 'c \<Rightarrow> ConnState \<Rightarrow> 'c GracefulServer1" where
  "forward1 s conn newState =
     (let s1 = (if stateHandler s
                then s\<lparr>calls1 := calls1 s @ [StateHandlerCall conn (lastHTTPState s conn) newState]\<rparr>
                else s);
          s2 = s1\<lparr>lastHTTPState := (lastHTTPState s1)(conn := newState)\<rparr>
      in if orgConnState s2
         then s2\<lparr>calls1 := calls1 s2 @ [ConnStateCall conn newState]\<rparr>
         else s2)"

text \<open>The \<^verbatim>\<open>ConnState\<close> callback that \<^verbatim>\<open>Serve\<close> installs (lines 243-282).\<close>

definition connState1 ::
  "'c GracefulServer1 \<Rightarrow> 'c \<Rightarrow> ConnState \<Rightarrow> 'c GracefulServer1 outcome" where
  "connState1 s conn newState =
     (case switch1 s conn newState of
        Panicked s' \<Rightarrow> Panicked s'
      | Returned s' \<Rightarrow> Returned (forward1 s' conn newState))"

text \<open>The goroutine of \<^verbatim>\<open>Serve\<close> once the channel is closed (lines 237-239).\<close>

definition shutdownRoutine1 :: "'c GracefulServer1 \<Rightarrow> 'c GracefulServer1" where
  "shutdownRoutine1 s =
     s\<lparr>closing1 := 1, calls1 := calls1 s @ [SetKeepAlivesEnabled False, ListenerClose]\<rparr>"

text \<open>
  \<^verbatim>\<open>Close\<close> (lines 127-129) is \<^verbatim>\<open>close(s.shutdown)\<close>: closing a closed channel panics
  (\<^verbatim>\<open>close of closed channel\<close>); closing an open one wakes the goroutine of \<^verbatim>\<open>Serve\<close>.
\<close>

definition Close1 :: "'c GracefulServer1 \<Rightarrow> 'c GracefulServer1 outcome" where
  "Close1 s =
     (if shutdown1 s then Panicked s
      else Returned (let s' = s\<lparr>shutdown1 := True\<rparr>
                     in if serving1 s' then shutdownRoutine1 s' else s'))"


definition step1 :: "'c GracefulServer1 \<Rightarrow> 'c event \<Rightarrow> 'c GracefulServer1 outcome" where
  "step1 s ev =
     (case ev of
        Notify conn newState \<Rightarrow> connState1 s conn newState
      | CloseCall \<Rightarrow> Close1 s)"

fun run1 :: "'c GracefulServer1 \<Rightarrow> 'c event list \<Rightarrow> 'c GracefulServer1 outcome" where
  "run1 s [] = Returned s"
| "run1 s (ev # evs) =
     (case step1 s ev of
        Panicked s' \<Rightarrow> Panicked s'
      | Returned s' \<Rightarrow> run1 s' evs)"

fun Wait1 :: "'c GracefulServer1 \<Rightarrow> 'c event list \<Rightarrow> 'c GracefulServer1 served" where
  "Wait1 s [] = (if wg1 s = 0 then ServeReturns None s else ServeWaits s)"
| "Wait1 s (ev # evs) =
     (if wg1 s = 0 then ServeReturns None s
      else (case step1 s ev of
              Panicked s' \<Rightarrow> ServePanics s'
            | Returned s' \<Rightarrow> Wait1 s' evs))"

text \<open>The end of \<^verbatim>\<open>Serve\<close> in the first version (lines 298-306).\<close>

definition serveReturn1 ::
  "'c GracefulServer1 \<Rightarrow> error option \<Rightarrow> 'c event list \<Rightarrow> 'c GracefulServer1 served" where
  "serveReturn1 s err later =
     (case err of
        None \<Rightarrow> Wait1 s later
      | Some e \<Rightarrow> if e = ListenerAlreadyClosed then Wait1 s later else ServeReturns err s)"





subsection \<open>Ordered notifications\<close>

text \<open>
  The order in which the serving engine reports the states of one connection, as the
  comments of the callback give it: a connection starts at \<^verbatim>\<open>StateNew\<close>, becomes active
  from \<^verbatim>\<open>StateNew\<close> or \<^verbatim>\<open>StateIdle\<close>, idle from \<^verbatim>\<open>StateActive\<close>, and ends from any of the
  three at \<^verbatim>\<open>StateClosed\<close> or \<^verbatim>\<open>StateHijacked\<close>, after which it is not seen again.
  \<^verbatim>\<open>None\<close> is a connection not yet seen.
\<close>

fun okStep :: "ConnState option \<Rightarrow> ConnState \<Rightarrow> bool" where
  "okStep None n = (n = StateNew)"
| "okStep (Some StateNew) n = (n = StateActive \<or> n = StateClosed \<or> n = StateHijacked)"
| "okStep (Some StateActive) n = (n = StateIdle \<or> n = StateClosed \<or> n = StateHijacked)"
| "okStep (Some StateIdle) n = (n = StateActive \<or> n = StateClosed \<or> n = StateHijacked)"
| "okStep (Some StateHijacked) n = False"
| "okStep (Some StateClosed) n = False"




text \<open>
  The state each connection is really in after a sequence of events, and whether the
  sequence is ordered for every connection.
\<close>

fun track :: "('c \<Rightarrow> ConnState option) \<Rightarrow> 'c event list \<Rightarrow> 'c \<Rightarrow> ConnState option" where
  "track cur [] = cur"
| "track cur (Notify c n # evs) = track (cur(c := Some n)) evs"
| "track cur (CloseCall # evs) = track cur evs"

fun ordered :: "('c \<Rightarrow> ConnState option) \<Rightarrow> 'c event list \<Rightarrow> bool" where
  "ordered cur [] = True"
| "ordered cur (Notify c n # evs) = (okStep (cur c) n \<and> ordered (cur(c := Some n)) evs)"
| "ordered cur (CloseCall # evs) = ordered cur evs"

text \<open>The connections that are neither idle nor ended.\<close>

definition inFlight :: "('c \<Rightarrow> ConnState option) \<Rightarrow> 'c set" where
  "inFlight cur = {c. cur c = Some StateNew \<or> cur c = Some StateActive}"





text \<open>The calls a callback added to the log.\<close>

definition emitted2 :: "'c GracefulServer2 \<Rightarrow> 'c GracefulServer2 outcome \<Rightarrow> 'c call list" where
  "emitted2 s r = drop (length (calls2 s)) (calls2 (final r))"

definition emitted1 :: "'c GracefulServer1 \<Rightarrow> 'c GracefulServer1 outcome \<Rightarrow> 'c call list" where
  "emitted1 s r = drop (length (calls1 s)) (calls1 (final r))"

subsection \<open>The invariants\<close>

text \<open>
  The server agrees with the real states \<^verbatim>\<open>cur\<close> of the connections: the counter is the
  number of connections in flight, and the map holds exactly the connections that have
  not ended, each with its state.
\<close>

definition tracks2 :: "'c GracefulServer2 \<Rightarrow> ('c \<Rightarrow> ConnState option) \<Rightarrow> bool" where
  "tracks2 s cur =
     (finite (dom cur) \<and> sint (wg2 s) = int (card (inFlight cur)) \<and>
      lastConnState s =
        (\<lambda>c. if cur c = Some StateClosed \<or> cur c = Some StateHijacked then None else cur c))"


subsection \<open>Example servers and systems\<close>

text \<open>
  A server of each version during shutdown, with connection 7 active, and an operating
  system on which every path exists, every removal succeeds and every listen succeeds.
\<close>

definition exServer2 :: "nat GracefulServer2" where
  "exServer2 =
     \<lparr> Addr2 = '':8080'', shutdown2 = ChanClosed, wg2 = 1,
       lastConnState = [7 \<mapsto> StateActive], closing2 = 1, originalConnState = True,
       calls2 = [SetKeepAlivesEnabled False, ListenerClose] \<rparr>"

definition exServer1 :: "nat GracefulServer1" where
  "exServer1 =
     \<lparr> Addr1 = '':8080'', shutdown1 = True, serving1 = True, wg1 = 1,
       listener1 = Some (GracefulListener (TCPListener '':8080'')),
       stateHandler = True, orgConnState = True,
       lastHTTPState = (\<lambda>_. StateNew)(7 := StateActive),
       closing1 = 1, calls1 = [SetKeepAlivesEnabled False, ListenerClose] \<rparr>"

definition exOs :: os where
  "exOs =
     \<lparr> osStat = (\<lambda>_. None), osRemove = (\<lambda>_. None),
       netListen = (\<lambda>netwk addr. if netwk = ''unix'' then Inr (UnixListener addr)
                                  else Inr (TCPListener addr)) \<rparr>"

text \<open>The first \<^verbatim>\<open>n\<close> connections, each just accepted.\<close>

definition manyNew :: "nat \<Rightarrow> nat event list" where
  "manyNew n = map (\<lambda>i. Notify i StateNew) [0..<n]"

definition exEvents :: "nat event list" where
  "exEvents =
     [Notify 1 StateNew, Notify 2 StateNew, Notify 1 StateActive, CloseCall,
      Notify 1 StateIdle, Notify 1 StateClosed]"

subsection \<open>The counter as an int32\<close>

lemma sint32_range: "- 2147483648 \<le> sint (w :: 32 word) \<and> sint w < 2147483648"
  using sint_ge [of w] sint_lt [of w] by simp

lemma sint32_inc:
  "sint (w :: 32 word) < 2147483647 \<Longrightarrow> sint (w + 1) = sint w + 1"
  using sint32_range [of w]
  by (simp add: sint_word_ariths signed_take_bit_int_eq_self)

lemma sint32_dec:
  "- 2147483648 < sint (w :: 32 word) \<Longrightarrow> sint (w - 1) = sint w - 1"
  using sint32_range [of w]
  by (simp add: sint_word_ariths signed_take_bit_int_eq_self)

lemma sint32_inc_wraps:
  "sint (w :: 32 word) = 2147483647 \<Longrightarrow> sint (w + 1) = - 2147483648"
  by (simp add: sint_word_ariths signed_take_bit_eq_take_bit_shift take_bit_eq_mod)

subsection \<open>Facts about one call of the callback\<close>

lemma wgAdd2_wg: "wg2 (final (wgAdd2 d s)) = wg2 s + d"
  by (simp add: wgAdd2_def Let_def)

lemma record2_wg: "wg2 (record2 s conn n) = wg2 s"
  by (simp add: record2_def Let_def)

lemma switch2_wg:
  "wg2 (final (switch2 s conn l n)) =
     wg2 s + (case n of StateNew \<Rightarrow> 1
              | StateActive \<Rightarrow> if l = StateIdle then 1 else 0
              | StateIdle \<Rightarrow> - 1
              | _ \<Rightarrow> if l \<noteq> StateIdle then - 1 else 0)"
  by (cases n) (simp_all add: switch2_def StartRoutine2_def FinishRoutine2_def wgAdd2_wg)

lemma connState2_wg:
  "wg2 (final (connState2 s conn n)) = wg2 (final (switch2 s conn (lookup2 s conn) n))"
  by (cases "switch2 s conn (lookup2 s conn) n") (simp_all add: connState2_def record2_wg)

lemma wgAdd1_wg: "wg1 (final (wgAdd1 d s)) = wg1 s + d"
  by (simp add: wgAdd1_def Let_def)

lemma wgAdd2_calls: "calls2 (final (wgAdd2 d s)) = calls2 s"
  by (simp add: wgAdd2_def Let_def)

lemma wgAdd1_calls: "calls1 (final (wgAdd1 d s)) = calls1 s"
  by (simp add: wgAdd1_def Let_def)

lemma switch2_calls:
  "calls2 (final (switch2 s conn l n)) =
     calls2 s @ (if n = StateIdle \<and> closing2 s = 1 then [ConnClose conn] else [])"
  by (cases n) (simp_all add: switch2_def StartRoutine2_def FinishRoutine2_def wgAdd2_calls)

lemma switch1_calls:
  "calls1 (final (switch1 s conn n)) =
     calls1 s @ (if n = StateIdle \<and> closing1 s = 1 then [ConnClose conn] else [])"
  by (cases n) (simp_all add: switch1_def StartRoutine1_def FinishRoutine1_def wgAdd1_calls)

lemma record2_calls:
  "calls2 (record2 s conn n) =
     calls2 s @ (if originalConnState s then [ConnStateCall conn n] else [])"
  by (simp add: record2_def Let_def)

lemma forward1_calls:
  "calls1 (forward1 s conn n) =
     calls1 s @ (if stateHandler s then [StateHandlerCall conn (lastHTTPState s conn) n] else [])
              @ (if orgConnState s then [ConnStateCall conn n] else [])"
  by (simp add: forward1_def Let_def)

lemma wgAdd2_frame:
  "lastConnState (final (wgAdd2 d s)) = lastConnState s"
  "originalConnState (final (wgAdd2 d s)) = originalConnState s"
  "closing2 (final (wgAdd2 d s)) = closing2 s"
  "shutdown2 (final (wgAdd2 d s)) = shutdown2 s"
  by (simp_all add: wgAdd2_def Let_def)

lemma switch2_frame:
  "lastConnState (final (switch2 s conn l n)) = lastConnState s"
  "originalConnState (final (switch2 s conn l n)) = originalConnState s"
  "closing2 (final (switch2 s conn l n)) = closing2 s"
  "shutdown2 (final (switch2 s conn l n)) = shutdown2 s"
  by (cases n; simp add: switch2_def StartRoutine2_def FinishRoutine2_def wgAdd2_frame)+

lemma wgAdd1_frame:
  "lastHTTPState (final (wgAdd1 d s)) = lastHTTPState s"
  "stateHandler (final (wgAdd1 d s)) = stateHandler s"
  "orgConnState (final (wgAdd1 d s)) = orgConnState s"
  "closing1 (final (wgAdd1 d s)) = closing1 s"
  by (simp_all add: wgAdd1_def Let_def)

lemma switch1_frame:
  "lastHTTPState (final (switch1 s conn n)) = lastHTTPState s"
  "stateHandler (final (switch1 s conn n)) = stateHandler s"
  "orgConnState (final (switch1 s conn n)) = orgConnState s"
  "closing1 (final (switch1 s conn n)) = closing1 s"
  by (cases n; simp add: switch1_def StartRoutine1_def FinishRoutine1_def wgAdd1_frame)+

lemma connState2_calls:
  "calls2 (final (connState2 s conn n)) =
     calls2 (final (switch2 s conn (lookup2 s conn) n)) @
     (case switch2 s conn (lookup2 s conn) n of
        Returned s' \<Rightarrow> if originalConnState s then [ConnStateCall conn n] else []
      | Panicked s' \<Rightarrow> [])"
proof (cases "switch2 s conn (lookup2 s conn) n")
  case (Returned s')
  then have "originalConnState s' = originalConnState s"
    using switch2_frame(2) [of s conn "lookup2 s conn" n] by simp
  with Returned show ?thesis by (simp add: connState2_def record2_calls)
next
  case (Panicked s')
  then show ?thesis by (simp add: connState2_def)
qed

lemma connState1_calls:
  "calls1 (final (connState1 s conn n)) =
     calls1 (final (switch1 s conn n)) @
     (case switch1 s conn n of
        Returned s' \<Rightarrow>
          (if stateHandler s then [StateHandlerCall conn (lastHTTPState s conn) n] else []) @
          (if orgConnState s then [ConnStateCall conn n] else [])
      | Panicked s' \<Rightarrow> [])"
proof (cases "switch1 s conn n")
  case (Returned s')
  then have "stateHandler s' = stateHandler s" "orgConnState s' = orgConnState s"
    "lastHTTPState s' = lastHTTPState s"
    using switch1_frame [of s conn n] by simp_all
  with Returned show ?thesis by (simp add: connState1_def forward1_calls)
next
  case (Panicked s')
  then show ?thesis by (simp add: connState1_def)
qed


lemma emitted2_connState2:
  "emitted2 s (connState2 s conn n) =
     (if n = StateIdle \<and> closing2 s = 1 then [ConnClose conn] else []) @
     (case switch2 s conn (lookup2 s conn) n of
        Returned s' \<Rightarrow> if originalConnState s then [ConnStateCall conn n] else []
      | Panicked s' \<Rightarrow> [])"
  unfolding emitted2_def connState2_calls switch2_calls by simp

lemma emitted1_connState1:
  "emitted1 s (connState1 s conn n) =
     (if n = StateIdle \<and> closing1 s = 1 then [ConnClose conn] else []) @
     (case switch1 s conn n of
        Returned s' \<Rightarrow>
          (if stateHandler s then [StateHandlerCall conn (lastHTTPState s conn) n] else []) @
          (if orgConnState s then [ConnStateCall conn n] else [])
      | Panicked s' \<Rightarrow> [])"
  unfolding emitted1_def connState1_calls switch1_calls by simp

lemma connState1_wg:
  "wg1 (final (connState1 s conn n)) = wg1 (final (switch1 s conn n))"
  by (cases "switch1 s conn n") (simp_all add: connState1_def forward1_def Let_def)

lemma switch1_wg:
  "wg1 (final (switch1 s conn n)) =
     wg1 s + (case n of StateNew \<Rightarrow> 1
              | StateActive \<Rightarrow> if lastHTTPState s conn = StateIdle then 1 else 0
              | StateIdle \<Rightarrow> - 1
              | _ \<Rightarrow> if lastHTTPState s conn \<noteq> StateIdle then - 1 else 0)"
  by (cases n) (simp_all add: switch1_def StartRoutine1_def FinishRoutine1_def wgAdd1_wg)

lemma connState2_returns_exact:
  assumes "0 \<le> sint (wg2 s)"
    and "n = StateNew \<or> (n = StateActive \<and> lookup2 s conn = StateIdle)
           \<Longrightarrow> sint (wg2 s) < 2147483647"
    and "n = StateIdle \<or> ((n = StateClosed \<or> n = StateHijacked) \<and> lookup2 s conn \<noteq> StateIdle)
           \<Longrightarrow> 0 < sint (wg2 s)"
  shows "\<exists>s'. connState2 s conn n = Returned s'"
proof -
  have inc: "sint (wg2 s) < 2147483647 \<Longrightarrow> \<not> sint (wg2 s + 1) < 0"
    using assms(1) by (simp add: sint32_inc)
  have dec: "0 < sint (wg2 s) \<Longrightarrow> \<not> sint (wg2 s - 1) < 0"
    by (simp add: sint32_dec)
  have "\<exists>s'. switch2 s conn (lookup2 s conn) n = Returned s'"
    using assms(2,3) inc dec
    by (cases n) (auto simp: switch2_def StartRoutine2_def FinishRoutine2_def wgAdd2_def Let_def)
  then show ?thesis by (auto simp: connState2_def)
qed

lemma connState2_returns:
  assumes "0 \<le> sint (wg2 s)" and "sint (wg2 s) < 2147483647"
    and "n = StateNew \<or> n = StateActive \<or> 0 < sint (wg2 s)
           \<or> (n \<noteq> StateIdle \<and> lookup2 s conn = StateIdle)"
  shows "\<exists>s'. connState2 s conn n = Returned s'"
  using assms by (intro connState2_returns_exact) auto

lemma connState1_returns_exact:
  assumes "0 \<le> sint (wg1 s)"
    and "n = StateNew \<or> (n = StateActive \<and> lastHTTPState s conn = StateIdle)
           \<Longrightarrow> sint (wg1 s) < 2147483647"
    and "n = StateIdle \<or> ((n = StateClosed \<or> n = StateHijacked) \<and> lastHTTPState s conn \<noteq> StateIdle)
           \<Longrightarrow> 0 < sint (wg1 s)"
  shows "\<exists>s'. connState1 s conn n = Returned s'"
proof -
  have inc: "sint (wg1 s) < 2147483647 \<Longrightarrow> \<not> sint (wg1 s + 1) < 0"
    using assms(1) by (simp add: sint32_inc)
  have dec: "0 < sint (wg1 s) \<Longrightarrow> \<not> sint (wg1 s - 1) < 0"
    by (simp add: sint32_dec)
  have "\<exists>s'. switch1 s conn n = Returned s'"
    using assms(2,3) inc dec
    by (cases n) (auto simp: switch1_def StartRoutine1_def FinishRoutine1_def wgAdd1_def Let_def)
  then show ?thesis by (auto simp: connState1_def)
qed

lemma connState1_returns:
  assumes "0 \<le> sint (wg1 s)" and "sint (wg1 s) < 2147483647"
    and "n = StateNew \<or> n = StateActive \<or> 0 < sint (wg1 s)
           \<or> (n \<noteq> StateIdle \<and> lastHTTPState s conn = StateIdle)"
  shows "\<exists>s'. connState1 s conn n = Returned s'"
  using assms by (intro connState1_returns_exact) auto

lemma connState2_map:
  assumes "connState2 s conn n = Returned s'"
  shows "lastConnState s' =
           (lastConnState s)(conn := if n = StateClosed \<or> n = StateHijacked then None else Some n)"
proof -
  from assms obtain s1 where sw: "switch2 s conn (lookup2 s conn) n = Returned s1"
    and s': "s' = record2 s1 conn n"
    by (auto simp: connState2_def split: outcome.splits)
  from sw have "lastConnState s1 = lastConnState s"
    using switch2_frame(1) [of s conn "lookup2 s conn" n] by simp
  then show ?thesis by (simp add: s' record2_def Let_def)
qed

subsection \<open>Facts about sequences of events\<close>

lemma finite_inFlight: "finite (dom cur) \<Longrightarrow> finite (inFlight cur)"
  by (rule finite_subset [of _ "dom cur"]) (auto simp: inFlight_def)

lemma inFlight_upd:
  "inFlight (cur(c := Some n)) =
     (if n = StateNew \<or> n = StateActive then insert c (inFlight cur) else inFlight cur - {c})"
  by (auto simp: inFlight_def)

lemma card_inFlight_upd:
  assumes "finite (dom cur)"
  shows "int (card (inFlight (cur(c := Some n)))) =
           int (card (inFlight cur))
           + (if n = StateNew \<or> n = StateActive then 1 else 0)
           - (if cur c = Some StateNew \<or> cur c = Some StateActive then 1 else 0)"
proof -
  have fin: "finite (inFlight cur)" using assms by (rule finite_inFlight)
  have mem: "c \<in> inFlight cur \<longleftrightarrow> cur c = Some StateNew \<or> cur c = Some StateActive"
    by (simp add: inFlight_def)
  show ?thesis
  proof (cases "c \<in> inFlight cur")
    case True
    then have "0 < card (inFlight cur)" using fin by (auto simp: card_gt_0_iff)
    with True fin mem show ?thesis
      by (simp add: inFlight_upd insert_absorb)
  next
    case False
    with fin mem show ?thesis by (simp add: inFlight_upd)
  qed
qed

lemma tracks2_lookup:
  "tracks2 s cur \<Longrightarrow>
   lookup2 s c = (case cur c of Some StateActive \<Rightarrow> StateActive | Some StateIdle \<Rightarrow> StateIdle
                  | _ \<Rightarrow> StateNew)"
  by (cases "cur c"; cases "the (cur c)") (auto simp: tracks2_def lookup2_def)

lemma tracks2_notify:
  assumes inv: "tracks2 s cur" and ok: "okStep (cur c) n"
    and room: "card (inFlight (cur(c := Some n))) < 2147483648"
  shows "\<exists>s'. connState2 s c n = Returned s' \<and> tracks2 s' (cur(c := Some n))"
proof -
  have fin: "finite (dom cur)" and wg: "sint (wg2 s) = int (card (inFlight cur))"
    using inv by (simp_all add: tracks2_def)
  have mem: "c \<in> inFlight cur \<longleftrightarrow> cur c = Some StateNew \<or> cur c = Some StateActive"
    by (simp add: inFlight_def)
  have pos: "cur c = Some StateNew \<or> cur c = Some StateActive \<Longrightarrow> 0 < sint (wg2 s)"
    using wg mem finite_inFlight [OF fin] by (auto simp: card_gt_0_iff)
  have nonneg: "0 \<le> sint (wg2 s)" using wg by simp
  have upd: "int (card (inFlight (cur(c := Some n)))) =
           sint (wg2 s)
           + (if n = StateNew \<or> n = StateActive then 1 else 0)
           - (if cur c = Some StateNew \<or> cur c = Some StateActive then 1 else 0)"
    using card_inFlight_upd [OF fin, of c n] wg by simp
  have look: "lookup2 s c = (case cur c of Some StateActive \<Rightarrow> StateActive
                  | Some StateIdle \<Rightarrow> StateIdle | _ \<Rightarrow> StateNew)"
    using inv by (rule tracks2_lookup)
  have below: "sint (wg2 s) < 2147483647"
    if "n = StateNew \<or> (n = StateActive \<and> lookup2 s c = StateIdle)"
    using that ok room upd look
    by (cases "cur c"; cases "the (cur c)"; cases n) auto
  have above: "0 < sint (wg2 s)"
    if "n = StateIdle \<or> ((n = StateClosed \<or> n = StateHijacked) \<and> lookup2 s c \<noteq> StateIdle)"
    using that ok pos look
    by (cases "cur c"; cases "the (cur c)"; cases n) auto
  from connState2_returns_exact [OF nonneg below above]
  obtain s' where s': "connState2 s c n = Returned s'" by blast
  have w: "wg2 s' = wg2 (final (switch2 s c (lookup2 s c) n))"
    using connState2_wg [of s c n] s' by simp
  have "sint (wg2 s') = int (card (inFlight (cur(c := Some n))))"
  proof (cases "n = StateNew \<or> (n = StateActive \<and> lookup2 s c = StateIdle)")
    case True
    then have "wg2 s' = wg2 s + 1"
      unfolding w switch2_wg by auto
    then have "sint (wg2 s') = sint (wg2 s) + 1"
      using below [OF True] by (simp add: sint32_inc)
    then show ?thesis
      unfolding upd using True ok look
      by (cases "cur c"; cases "the (cur c)"; cases n) auto
  next
    case noinc: False
    show ?thesis
    proof (cases "n = StateIdle \<or> ((n = StateClosed \<or> n = StateHijacked) \<and> lookup2 s c \<noteq> StateIdle)")
      case True
      then have "wg2 s' = wg2 s - 1"
        unfolding w switch2_wg by (cases n) auto
      then have "sint (wg2 s') = sint (wg2 s) - 1"
        using above [OF True] by (simp add: sint32_dec)
      then show ?thesis
        unfolding upd using True ok look
        by (cases "cur c"; cases "the (cur c)"; cases n) auto
    next
      case False
      with noinc have "wg2 s' = wg2 s"
        unfolding w switch2_wg by (cases n) auto
      then show ?thesis
        unfolding upd using False noinc ok look
        by (cases "cur c"; cases "the (cur c)"; cases n) auto
    qed
  qed
  moreover have "finite (dom (cur(c := Some n)))" using fin by simp
  moreover have "lastConnState s' =
        (\<lambda>d. if (cur(c := Some n)) d = Some StateClosed \<or> (cur(c := Some n)) d = Some StateHijacked
              then None else (cur(c := Some n)) d)"
    using inv by (auto simp: connState2_map [OF s'] tracks2_def fun_eq_iff)
  ultimately show ?thesis using s' by (simp add: tracks2_def)
qed

lemma tracks2_Close2: "tracks2 s cur \<Longrightarrow> tracks2 (snd (Close2 s)) cur"
  by (cases "shutdown2 s") (simp_all add: Close2_def tracks2_def)

lemma tracks2_run:
  "tracks2 s cur \<Longrightarrow> ordered cur evs \<Longrightarrow>
   \<forall>p. prefix p evs \<longrightarrow> card (inFlight (track cur p)) < 2147483648 \<Longrightarrow>
   \<exists>s'. run2 s evs = Returned s' \<and> tracks2 s' (track cur evs)"
proof (induction evs arbitrary: s cur)
  case Nil
  then show ?case by simp
next
  case (Cons ev evs)
  have bound: "card (inFlight (track cur (ev # p))) < 2147483648" if "prefix p evs" for p
    using Cons.prems(3) that by simp
  show ?case
  proof (cases ev)
    case (Notify c n)
    with Cons.prems have ok: "okStep (cur c) n" and rest: "ordered (cur(c := Some n)) evs"
      by simp_all
    have room: "card (inFlight (cur(c := Some n))) < 2147483648"
      using bound [of "[]"] Notify by simp
    have later: "\<forall>p. prefix p evs \<longrightarrow> card (inFlight (track (cur(c := Some n)) p)) < 2147483648"
      using bound Notify by simp
    from tracks2_notify [OF Cons.prems(1) ok room] obtain s1
      where s1: "connState2 s c n = Returned s1" and inv1: "tracks2 s1 (cur(c := Some n))"
      by blast
    show ?thesis
      unfolding Notify run2.simps step2_def event.case s1 outcome.case track.simps
      by (rule Cons.IH [OF inv1 rest later])
  next
    case CloseCall
    with Cons.prems have rest: "ordered cur evs" by simp
    have later: "\<forall>p. prefix p evs \<longrightarrow> card (inFlight (track cur p)) < 2147483648"
      using bound CloseCall by simp
    show ?thesis
      unfolding CloseCall run2.simps step2_def event.case outcome.case track.simps
      by (rule Cons.IH [OF tracks2_Close2 [OF Cons.prems(1)] rest later])
  qed
qed

























text \<open>Waiting for the counter.\<close>

lemma run2_Cons_final:
  "step2 s ev = Returned s1 \<Longrightarrow> run2 s (ev # q) = run2 s1 q"
  by simp

lemma Wait2_iff:
  "Wait2 s later = ServeReturns r s' \<longleftrightarrow>
     r = None \<and>
     (\<exists>p. prefix p later \<and> run2 s p = Returned s' \<and> wg2 s' = 0 \<and>
          (\<forall>q. strict_prefix q p \<longrightarrow> wg2 (final (run2 s q)) \<noteq> 0))"
proof (induction later arbitrary: s)
  case Nil
  then show ?case by auto
next
  case (Cons ev evs)
  show ?case
  proof (cases "wg2 s = 0")
    case True
    have "(\<exists>p. prefix p (ev # evs) \<and> run2 s p = Returned s' \<and> wg2 s' = 0 \<and>
             (\<forall>q. strict_prefix q p \<longrightarrow> wg2 (final (run2 s q)) \<noteq> 0)) \<longleftrightarrow> s' = s"
    proof
      assume "\<exists>p. prefix p (ev # evs) \<and> run2 s p = Returned s' \<and> wg2 s' = 0 \<and>
             (\<forall>q. strict_prefix q p \<longrightarrow> wg2 (final (run2 s q)) \<noteq> 0)"
      then obtain p where p: "run2 s p = Returned s'"
        and first: "\<forall>q. strict_prefix q p \<longrightarrow> wg2 (final (run2 s q)) \<noteq> 0"
        by blast
      have "p = []"
      proof (rule ccontr)
        assume "p \<noteq> []"
        then have "strict_prefix [] p" by (simp add: strict_prefix_def)
        with first have "wg2 (final (run2 s [])) \<noteq> 0" by blast
        with True show False by simp
      qed
      with p show "s' = s" by simp
    next
      assume "s' = s"
      with True have "prefix [] (ev # evs) \<and> run2 s [] = Returned s' \<and> wg2 s' = 0 \<and>
             (\<forall>q. strict_prefix q [] \<longrightarrow> wg2 (final (run2 s q)) \<noteq> 0)"
        by simp
      then show "\<exists>p. prefix p (ev # evs) \<and> run2 s p = Returned s' \<and> wg2 s' = 0 \<and>
             (\<forall>q. strict_prefix q p \<longrightarrow> wg2 (final (run2 s q)) \<noteq> 0)"
        by blast
    qed
    with True show ?thesis by auto
  next
    case False
    show ?thesis
    proof (cases "step2 s ev")
      case (Panicked x)
      have "\<not> (\<exists>p. prefix p (ev # evs) \<and> run2 s p = Returned s' \<and> wg2 s' = 0 \<and>
             (\<forall>q. strict_prefix q p \<longrightarrow> wg2 (final (run2 s q)) \<noteq> 0))"
      proof
        assume "\<exists>p. prefix p (ev # evs) \<and> run2 s p = Returned s' \<and> wg2 s' = 0 \<and>
             (\<forall>q. strict_prefix q p \<longrightarrow> wg2 (final (run2 s q)) \<noteq> 0)"
        then obtain p where pre: "prefix p (ev # evs)" and p: "run2 s p = Returned s'"
          and z: "wg2 s' = 0" by blast
        show False
        proof (cases p)
          case Nil
          with p z False show False by simp
        next
          case (Cons a p')
          with pre have "a = ev" by simp
          with Cons p Panicked show False by simp
        qed
      qed
      with False Panicked show ?thesis by simp
    next
      case (Returned s1)
      have "(\<exists>p. prefix p (ev # evs) \<and> run2 s p = Returned s' \<and> wg2 s' = 0 \<and>
               (\<forall>q. strict_prefix q p \<longrightarrow> wg2 (final (run2 s q)) \<noteq> 0))
            \<longleftrightarrow>
            (\<exists>p. prefix p evs \<and> run2 s1 p = Returned s' \<and> wg2 s' = 0 \<and>
               (\<forall>q. strict_prefix q p \<longrightarrow> wg2 (final (run2 s1 q)) \<noteq> 0))"
        (is "?L \<longleftrightarrow> ?R")
      proof
        assume ?L
        then obtain p where pre: "prefix p (ev # evs)" and p: "run2 s p = Returned s'"
          and z: "wg2 s' = 0"
          and first: "\<forall>q. strict_prefix q p \<longrightarrow> wg2 (final (run2 s q)) \<noteq> 0"
          by blast
        from p z False obtain p' where pp: "p = ev # p'" and pre': "prefix p' evs"
          using pre by (cases p) auto
        have "run2 s1 p' = Returned s'" using p pp Returned by simp
        moreover have "wg2 (final (run2 s1 q)) \<noteq> 0" if "strict_prefix q p'" for q
        proof -
          from that have "strict_prefix (ev # q) p" by (simp add: pp)
          with first have "wg2 (final (run2 s (ev # q))) \<noteq> 0" by blast
          then show ?thesis using Returned by simp
        qed
        ultimately show ?R using pre' z by blast
      next
        assume ?R
        then obtain p' where pre': "prefix p' evs" and p': "run2 s1 p' = Returned s'"
          and z: "wg2 s' = 0"
          and first: "\<forall>q. strict_prefix q p' \<longrightarrow> wg2 (final (run2 s1 q)) \<noteq> 0"
          by blast
        have "run2 s (ev # p') = Returned s'" using p' Returned by simp
        moreover have "prefix (ev # p') (ev # evs)" using pre' by simp
        moreover have "wg2 (final (run2 s q)) \<noteq> 0" if "strict_prefix q (ev # p')" for q
        proof (cases q)
          case Nil
          with False show ?thesis by simp
        next
          case (Cons a q')
          with that have "a = ev" and "strict_prefix q' p'" by simp_all
          with first Cons Returned show ?thesis by simp
        qed
        ultimately show ?L using z by blast
      qed
      with False Returned Cons.IH [of s1] show ?thesis by simp
    qed
  qed
qed

lemma run1_Cons_final:
  "step1 s ev = Returned s1 \<Longrightarrow> run1 s (ev # q) = run1 s1 q"
  by simp

lemma Wait1_iff:
  "Wait1 s later = ServeReturns r s' \<longleftrightarrow>
     r = None \<and>
     (\<exists>p. prefix p later \<and> run1 s p = Returned s' \<and> wg1 s' = 0 \<and>
          (\<forall>q. strict_prefix q p \<longrightarrow> wg1 (final (run1 s q)) \<noteq> 0))"
proof (induction later arbitrary: s)
  case Nil
  then show ?case by auto
next
  case (Cons ev evs)
  show ?case
  proof (cases "wg1 s = 0")
    case True
    have "(\<exists>p. prefix p (ev # evs) \<and> run1 s p = Returned s' \<and> wg1 s' = 0 \<and>
             (\<forall>q. strict_prefix q p \<longrightarrow> wg1 (final (run1 s q)) \<noteq> 0)) \<longleftrightarrow> s' = s"
    proof
      assume "\<exists>p. prefix p (ev # evs) \<and> run1 s p = Returned s' \<and> wg1 s' = 0 \<and>
             (\<forall>q. strict_prefix q p \<longrightarrow> wg1 (final (run1 s q)) \<noteq> 0)"
      then obtain p where p: "run1 s p = Returned s'"
        and first: "\<forall>q. strict_prefix q p \<longrightarrow> wg1 (final (run1 s q)) \<noteq> 0"
        by blast
      have "p = []"
      proof (rule ccontr)
        assume "p \<noteq> []"
        then have "strict_prefix [] p" by (simp add: strict_prefix_def)
        with first have "wg1 (final (run1 s [])) \<noteq> 0" by blast
        with True show False by simp
      qed
      with p show "s' = s" by simp
    next
      assume "s' = s"
      with True have "prefix [] (ev # evs) \<and> run1 s [] = Returned s' \<and> wg1 s' = 0 \<and>
             (\<forall>q. strict_prefix q [] \<longrightarrow> wg1 (final (run1 s q)) \<noteq> 0)"
        by simp
      then show "\<exists>p. prefix p (ev # evs) \<and> run1 s p = Returned s' \<and> wg1 s' = 0 \<and>
             (\<forall>q. strict_prefix q p \<longrightarrow> wg1 (final (run1 s q)) \<noteq> 0)"
        by blast
    qed
    with True show ?thesis by auto
  next
    case False
    show ?thesis
    proof (cases "step1 s ev")
      case (Panicked x)
      have "\<not> (\<exists>p. prefix p (ev # evs) \<and> run1 s p = Returned s' \<and> wg1 s' = 0 \<and>
             (\<forall>q. strict_prefix q p \<longrightarrow> wg1 (final (run1 s q)) \<noteq> 0))"
      proof
        assume "\<exists>p. prefix p (ev # evs) \<and> run1 s p = Returned s' \<and> wg1 s' = 0 \<and>
             (\<forall>q. strict_prefix q p \<longrightarrow> wg1 (final (run1 s q)) \<noteq> 0)"
        then obtain p where pre: "prefix p (ev # evs)" and p: "run1 s p = Returned s'"
          and z: "wg1 s' = 0" by blast
        show False
        proof (cases p)
          case Nil
          with p z False show False by simp
        next
          case (Cons a p')
          with pre have "a = ev" by simp
          with Cons p Panicked show False by simp
        qed
      qed
      with False Panicked show ?thesis by simp
    next
      case (Returned s1)
      have "(\<exists>p. prefix p (ev # evs) \<and> run1 s p = Returned s' \<and> wg1 s' = 0 \<and>
               (\<forall>q. strict_prefix q p \<longrightarrow> wg1 (final (run1 s q)) \<noteq> 0))
            \<longleftrightarrow>
            (\<exists>p. prefix p evs \<and> run1 s1 p = Returned s' \<and> wg1 s' = 0 \<and>
               (\<forall>q. strict_prefix q p \<longrightarrow> wg1 (final (run1 s1 q)) \<noteq> 0))"
        (is "?L \<longleftrightarrow> ?R")
      proof
        assume ?L
        then obtain p where pre: "prefix p (ev # evs)" and p: "run1 s p = Returned s'"
          and z: "wg1 s' = 0"
          and first: "\<forall>q. strict_prefix q p \<longrightarrow> wg1 (final (run1 s q)) \<noteq> 0"
          by blast
        from p z False obtain p' where pp: "p = ev # p'" and pre': "prefix p' evs"
          using pre by (cases p) auto
        have "run1 s1 p' = Returned s'" using p pp Returned by simp
        moreover have "wg1 (final (run1 s1 q)) \<noteq> 0" if "strict_prefix q p'" for q
        proof -
          from that have "strict_prefix (ev # q) p" by (simp add: pp)
          with first have "wg1 (final (run1 s (ev # q))) \<noteq> 0" by blast
          then show ?thesis using Returned by simp
        qed
        ultimately show ?R using pre' z by blast
      next
        assume ?R
        then obtain p' where pre': "prefix p' evs" and p': "run1 s1 p' = Returned s'"
          and z: "wg1 s' = 0"
          and first: "\<forall>q. strict_prefix q p' \<longrightarrow> wg1 (final (run1 s1 q)) \<noteq> 0"
          by blast
        have "run1 s (ev # p') = Returned s'" using p' Returned by simp
        moreover have "prefix (ev # p') (ev # evs)" using pre' by simp
        moreover have "wg1 (final (run1 s q)) \<noteq> 0" if "strict_prefix q (ev # p')" for q
        proof (cases q)
          case Nil
          with False show ?thesis by simp
        next
          case (Cons a q')
          with that have "a = ev" and "strict_prefix q' p'" by simp_all
          with first Cons Returned show ?thesis by simp
        qed
        ultimately show ?L using z by blast
      qed
      with False Returned Cons.IH [of s1] show ?thesis by simp
    qed
  qed
qed

text \<open>Many connections at once.\<close>

lemma run2_append:
  "run2 s (xs @ ys) =
     (case run2 s xs of Panicked s' \<Rightarrow> Panicked s' | Returned s' \<Rightarrow> run2 s' ys)"
  by (induction xs arbitrary: s) (auto split: outcome.splits)

lemma manyNew_Suc: "manyNew (Suc n) = manyNew n @ [Notify n StateNew]"
  by (simp add: manyNew_def)

lemma connState2_New_wg:
  "wg2 (final (connState2 s c StateNew)) = wg2 s + 1"
  unfolding connState2_wg switch2_wg by simp

lemma connState2_New_returns:
  assumes "0 \<le> sint (wg2 s)" and "sint (wg2 s) < 2147483647"
  shows "\<exists>s'. connState2 s c StateNew = Returned s' \<and> sint (wg2 s') = sint (wg2 s) + 1"
proof -
  from connState2_returns [OF assms, of StateNew c]
  obtain s' where s': "connState2 s c StateNew = Returned s'" by auto
  with connState2_New_wg [of s c] have "wg2 s' = wg2 s + 1" by simp
  with assms(2) s' show ?thesis by (simp add: sint32_inc)
qed

lemma connState2_New_panics:
  assumes "sint (wg2 s) = 2147483647"
  shows "\<exists>s'. connState2 s c StateNew = Panicked s' \<and> sint (wg2 s') = - 2147483648"
  using sint32_inc_wraps [OF assms]
  by (simp add: connState2_def switch2_def StartRoutine2_def wgAdd2_def Let_def)

lemma run2_manyNew:
  assumes "wg2 s = 0" and "n < 2147483648"
  shows "\<exists>s'. run2 s (manyNew n) = Returned s' \<and> sint (wg2 s') = int n"
  using assms(2)
proof (induction n)
  case 0
  then show ?case using assms(1) by (simp add: manyNew_def)
next
  case (Suc n)
  then obtain s1 where s1: "run2 s (manyNew n) = Returned s1" and w: "sint (wg2 s1) = int n"
    by auto
  from connState2_New_returns [of s1 n] w Suc.prems
  obtain s' where "connState2 s1 n StateNew = Returned s'" and "sint (wg2 s') = int n + 1"
    by auto
  with s1 show ?case
    by (simp add: manyNew_Suc run2_append step2_def)
qed

lemma ordered_append:
  "ordered cur (xs @ ys) \<longleftrightarrow> ordered cur xs \<and> ordered (track cur xs) ys"
  by (induction cur xs rule: ordered.induct) (simp_all del: fun_upd_apply)

lemma track_append: "track cur (xs @ ys) = track (track cur xs) ys"
  by (induction cur xs rule: track.induct) (simp_all del: fun_upd_apply)

lemma track_manyNew:
  "track (\<lambda>_. None) (manyNew n) = (\<lambda>i. if i < n then Some StateNew else None)"
proof (induction n)
  case 0
  then show ?case by (simp add: manyNew_def)
next
  case (Suc n)
  then show ?case by (auto simp: manyNew_Suc track_append fun_eq_iff)
qed

lemma ordered_manyNew: "ordered (\<lambda>_. None) (manyNew n)"
proof (induction n)
  case 0
  then show ?case by (simp add: manyNew_def)
next
  case (Suc n)
  then show ?case by (simp add: manyNew_Suc ordered_append track_manyNew)
qed

lemma inFlight_manyNew: "inFlight (track (\<lambda>_. None) (manyNew n)) = {..<n}"
  by (auto simp: track_manyNew inFlight_def)

text \<open>At most one more connection in flight with each event.\<close>

lemma card_inFlight_track:
  "finite (dom cur) \<Longrightarrow>
   finite (dom (track cur evs)) \<and>
   card (inFlight (track cur evs)) \<le> card (inFlight cur) + length evs"
proof (induction cur evs rule: track.induct)
  case (1 cur)
  then show ?case by simp
next
  case (2 cur c n evs)
  have fin: "finite (dom (cur(c := Some n)))" using "2.prems" by simp
  have "card (inFlight (cur(c := Some n))) \<le> card (inFlight cur) + 1"
    using card_inFlight_upd [OF "2.prems", of c n] by (simp split: if_splits)
  moreover from "2.IH" [OF fin]
  have "finite (dom (track (cur(c := Some n)) evs))"
    and "card (inFlight (track (cur(c := Some n)) evs)) \<le>
           card (inFlight (cur(c := Some n))) + length evs"
    by blast+
  ultimately show ?case by (simp del: fun_upd_apply)
next
  case (3 cur evs)
  then show ?case by simp
qed

lemma short_runs_fit:
  assumes "length evs < 2147483648"
  shows "\<forall>p. prefix p evs \<longrightarrow> card (inFlight (track (\<lambda>_. None) p)) < 2147483648"
proof (intro allI impI)
  fix p assume "prefix p evs"
  then have "length p \<le> length evs" by (rule prefix_length_le)
  moreover have "card (inFlight (track (\<lambda>_. None) p)) \<le> length p"
    using card_inFlight_track [of "\<lambda>_. None" p] by (simp add: inFlight_def)
  ultimately show "card (inFlight (track (\<lambda>_. None) p)) < 2147483648"
    using assms by simp
qed

lemma exEvents_fit:
  "\<forall>p. prefix p exEvents \<longrightarrow> card (inFlight (track (\<lambda>_. None) p)) < 2 ^ 31"
  using short_runs_fit [of exEvents] by (simp add: exEvents_def)

text \<open>
  \<^verbatim>\<open>Close\<close> of the second version, called again: once the goroutine of \<^verbatim>\<open>Serve\<close> has
  offered its send, every call after the first returns \<^verbatim>\<open>false\<close> and changes nothing.
\<close>

lemma Close2_again:
  "shutdown2 s \<noteq> NoSender \<Longrightarrow> Close2 (snd (Close2 s)) = (Some False, snd (Close2 s))"
  by (cases "shutdown2 s") (simp_all add: Close2_def)

lemma Close2_repeated:
  "shutdown2 s \<noteq> NoSender \<Longrightarrow> ((\<lambda>x. snd (Close2 x)) ^^ Suc k) s = snd (Close2 s)"
  by (induction k) (simp_all add: Close2_again)

section \<open>The claims\<close>




text \<open>
  C2, as stated, fails when 2^31 connections are in flight at once: the counter is an
  \<^verbatim>\<open>int32\<close>, so the notification of the 2^31st new connection wraps it to the smallest
  value and \<^verbatim>\<open>wg.Add\<close> panics, although every connection's notifications are in order.
\<close>

theorem drain_counter_overflow_counterexample:
  "ordered (\<lambda>_. None) (manyNew 2147483648)
   \<and> card (inFlight (track (\<lambda>_. None) (manyNew 2147483648))) = 2147483648
   \<and> (\<exists>s'. run2 (NewWithServer2 '':8080'' False) (manyNew 2147483648) = Panicked s'
          \<and> sint (wg2 s') = - 2147483648)"
proof -
  let ?s = "NewWithServer2 '':8080'' False :: nat GracefulServer2"
  have "wg2 ?s = 0" by (simp add: NewWithServer2_def)
  from run2_manyNew [OF this, of 2147483647]
  obtain s1 where s1: "run2 ?s (manyNew 2147483647) = Returned s1"
    and w: "sint (wg2 s1) = 2147483647"
    by auto
  from connState2_New_panics [OF w, of 2147483647]
  obtain s' where p: "connState2 s1 2147483647 StateNew = Panicked s'"
    and w': "sint (wg2 s') = - 2147483648"
    by auto
  have split: "manyNew 2147483648 = manyNew 2147483647 @ [Notify 2147483647 StateNew]"
    using manyNew_Suc [of 2147483647] by simp
  have "run2 ?s (manyNew 2147483648) = Panicked s'"
    unfolding split by (simp add: run2_append s1 step2_def p)
  with w' show ?thesis
    by (simp add: ordered_manyNew inFlight_manyNew)
qed

text \<open>
  C2, amended: after any sequence of events in which the notifications of every
  connection arrive in order and fewer than 2^31 connections are in flight at any time,
  starting from a server with counter zero and an empty map, no call has panicked and
  the drain counter of the second version is the number of connections that are neither
  idle nor ended; it is zero exactly when there is no such connection.
\<close>

theorem drain_counter_counts_in_flight:
  assumes "wg2 s = 0" and "lastConnState s = Map.empty" and "ordered (\<lambda>_. None) evs"
    and "\<forall>p. prefix p evs \<longrightarrow> card (inFlight (track (\<lambda>_. None) p)) < 2 ^ 31"
  shows "\<exists>s'. run2 s evs = Returned s'
           \<and> sint (wg2 s') = int (card (inFlight (track (\<lambda>_. None) evs)))
           \<and> (wg2 s' = 0 \<longleftrightarrow> inFlight (track (\<lambda>_. None) evs) = {})"
proof -
  have "tracks2 s (\<lambda>_. None)"
    using assms(1,2) by (simp add: tracks2_def inFlight_def)
  from tracks2_run [OF this assms(3)] assms(4) obtain s'
    where r: "run2 s evs = Returned s'" and inv: "tracks2 s' (track (\<lambda>_. None) evs)"
    by auto
  from inv have fin: "finite (inFlight (track (\<lambda>_. None) evs))"
    and w: "sint (wg2 s') = int (card (inFlight (track (\<lambda>_. None) evs)))"
    by (simp_all add: tracks2_def finite_inFlight)
  have "wg2 s' = 0 \<longleftrightarrow> sint (wg2 s') = 0"
    by (simp add: signed_eq_0_iff)
  with fin w r show ?thesis by auto
qed

lemma exEvents_inFlight: "inFlight (track (\<lambda>_. None) exEvents) = {2}"
  by (auto simp: exEvents_def inFlight_def)

theorem drain_counter_counts_in_flight_witness:
  "\<exists>s'. run2 (NewWithServer2 '':8080'' False) exEvents = Returned s' \<and> sint (wg2 s') = 1"
proof -
  have a: "wg2 (NewWithServer2 '':8080'' False :: nat GracefulServer2) = 0"
    and b: "lastConnState (NewWithServer2 '':8080'' False :: nat GracefulServer2) = Map.empty"
    by (simp_all add: NewWithServer2_def)
  have c: "ordered (\<lambda>_. None) exEvents"
    by (simp add: exEvents_def)
  from drain_counter_counts_in_flight [OF a b c exEvents_fit] show ?thesis
    by (auto simp: exEvents_inFlight)
qed

text \<open>
  C3: a second \<^verbatim>\<open>Close\<close> on a server of the first version panics, whatever the state of
  the server before the first: \<^verbatim>\<open>close(s.shutdown)\<close> runs on a channel that is closed.
\<close>

theorem second_Close1_panics:
  "Close1 (final (Close1 s)) = Panicked (final (Close1 s))"
  by (simp add: Close1_def shutdownRoutine1_def Let_def)

text \<open>
  C4: let \<^verbatim>\<open>s\<close> be the server when the serving engine returns \<^verbatim>\<open>err\<close>, and \<^verbatim>\<open>later\<close> the
  events that follow. \<^verbatim>\<open>Serve\<close> returns \<^verbatim>\<open>nil\<close> exactly when it takes the drain path - the
  error is \<^verbatim>\<open>nil\<close> or due to the closure - and the counter reaches zero: it returns at the
  first moment the counter is zero, at once if it is zero already, and not before.
  \<^verbatim>\<open>Serve\<close> returns the engine's error, the same value and without waiting, exactly when
  that error is not \<^verbatim>\<open>nil\<close> and not due to the closure: in the second version when the
  \<^verbatim>\<open>closing\<close> flag is not 1, in the first when the error is not a
  \<^verbatim>\<open>listenerAlreadyClosed\<close>.
\<close>

theorem serve_return_policy:
  "(\<forall>s'. serveReturn2 s err later = ServeReturns None s' \<longleftrightarrow>
        (err = None \<or> closing2 s = 1) \<and>
        (\<exists>p. prefix p later \<and> run2 s p = Returned s' \<and> wg2 s' = 0 \<and>
             (\<forall>q. strict_prefix q p \<longrightarrow> wg2 (final (run2 s q)) \<noteq> 0)))
   \<and> (\<forall>e s'. serveReturn2 s err later = ServeReturns (Some e) s' \<longleftrightarrow>
        err = Some e \<and> closing2 s \<noteq> 1 \<and> s' = s)
   \<and> (\<forall>t'. serveReturn1 t err later = ServeReturns None t' \<longleftrightarrow>
        (err = None \<or> err = Some ListenerAlreadyClosed) \<and>
        (\<exists>p. prefix p later \<and> run1 t p = Returned t' \<and> wg1 t' = 0 \<and>
             (\<forall>q. strict_prefix q p \<longrightarrow> wg1 (final (run1 t q)) \<noteq> 0)))
   \<and> (\<forall>e t'. serveReturn1 t err later = ServeReturns (Some e) t' \<longleftrightarrow>
        err = Some e \<and> e \<noteq> ListenerAlreadyClosed \<and> t' = t)"
proof (intro conjI allI)
  fix s'
  show "serveReturn2 s err later = ServeReturns None s' \<longleftrightarrow>
        (err = None \<or> closing2 s = 1) \<and>
        (\<exists>p. prefix p later \<and> run2 s p = Returned s' \<and> wg2 s' = 0 \<and>
             (\<forall>q. strict_prefix q p \<longrightarrow> wg2 (final (run2 s q)) \<noteq> 0))"
    using Wait2_iff [of s later None s'] by (auto simp: serveReturn2_def)
next
  fix e s'
  show "serveReturn2 s err later = ServeReturns (Some e) s' \<longleftrightarrow>
        err = Some e \<and> closing2 s \<noteq> 1 \<and> s' = s"
    using Wait2_iff [of s later "Some e" s'] by (auto simp: serveReturn2_def)
next
  fix t'
  show "serveReturn1 t err later = ServeReturns None t' \<longleftrightarrow>
        (err = None \<or> err = Some ListenerAlreadyClosed) \<and>
        (\<exists>p. prefix p later \<and> run1 t p = Returned t' \<and> wg1 t' = 0 \<and>
             (\<forall>q. strict_prefix q p \<longrightarrow> wg1 (final (run1 t q)) \<noteq> 0))"
    using Wait1_iff [of t later None t']
    by (auto simp: serveReturn1_def split: option.splits)
next
  fix e t'
  show "serveReturn1 t err later = ServeReturns (Some e) t' \<longleftrightarrow>
        err = Some e \<and> e \<noteq> ListenerAlreadyClosed \<and> t' = t"
    using Wait1_iff [of t later "Some e" t']
    by (auto simp: serveReturn1_def split: option.splits)
qed

text \<open>
  A server of each version in shutdown with connection 7 still active: \<^verbatim>\<open>Serve\<close> waits
  while the other connection 8 comes and goes idle, and returns \<^verbatim>\<open>nil\<close> when connection 7
  goes idle; with the closure not requested, the engine's error comes back.
\<close>

lemma exLater_run2:
  "run2 exServer2 [Notify 7 StateIdle] =
     Returned (exServer2\<lparr>wg2 := 0, lastConnState := [7 \<mapsto> StateIdle],
       calls2 := [SetKeepAlivesEnabled False, ListenerClose, ConnClose 7,
                  ConnStateCall 7 StateIdle]\<rparr>)"
  by (simp add: exServer2_def step2_def connState2_def switch2_def lookup2_def record2_def
      FinishRoutine2_def wgAdd2_def Let_def)

lemma exLater_run1:
  "run1 exServer1 [Notify 7 StateIdle] =
     Returned (exServer1\<lparr>wg1 := 0, lastHTTPState := (\<lambda>_. StateNew)(7 := StateIdle),
       calls1 := [SetKeepAlivesEnabled False, ListenerClose, ConnClose 7,
                  StateHandlerCall 7 StateActive StateIdle, ConnStateCall 7 StateIdle]\<rparr>)"
  by (simp add: exServer1_def step1_def connState1_def switch1_def forward1_def
      FinishRoutine1_def wgAdd1_def Let_def)

theorem serve_return_policy_witness:
  "serveReturn2 exServer2 (Some (OtherError ''use of closed network connection''))
       [Notify 7 StateIdle, Notify 8 StateNew] =
     ServeReturns None
       (exServer2\<lparr>wg2 := 0, lastConnState := [7 \<mapsto> StateIdle],
          calls2 := [SetKeepAlivesEnabled False, ListenerClose, ConnClose 7,
                     ConnStateCall 7 StateIdle]\<rparr>)
   \<and> serveReturn2 (exServer2\<lparr>closing2 := 0\<rparr>) (Some (OtherError ''too many open files''))
       [Notify 7 StateIdle] =
     ServeReturns (Some (OtherError ''too many open files'')) (exServer2\<lparr>closing2 := 0\<rparr>)
   \<and> serveReturn1 exServer1 (Some ListenerAlreadyClosed)
       [Notify 7 StateIdle, Notify 8 StateNew] =
     ServeReturns None
       (exServer1\<lparr>wg1 := 0, lastHTTPState := (\<lambda>_. StateNew)(7 := StateIdle),
          calls1 := [SetKeepAlivesEnabled False, ListenerClose, ConnClose 7,
                     StateHandlerCall 7 StateActive StateIdle, ConnStateCall 7 StateIdle]\<rparr>)
   \<and> serveReturn1 exServer1 (Some (OtherError ''too many open files''))
       [Notify 7 StateIdle] =
     ServeReturns (Some (OtherError ''too many open files'')) exServer1"
proof -
  let ?u = "exServer2\<lparr>wg2 := 0, lastConnState := [7 \<mapsto> StateIdle],
          calls2 := [SetKeepAlivesEnabled False, ListenerClose, ConnClose 7,
                     ConnStateCall 7 StateIdle]\<rparr>"
  let ?v = "exServer1\<lparr>wg1 := 0, lastHTTPState := (\<lambda>_. StateNew)(7 := StateIdle),
          calls1 := [SetKeepAlivesEnabled False, ListenerClose, ConnClose 7,
                     StateHandlerCall 7 StateActive StateIdle, ConnStateCall 7 StateIdle]\<rparr>"
  let ?later = "[Notify 7 StateIdle, Notify 8 StateNew] :: nat event list"
  let ?e = "OtherError ''too many open files''"
  have start2: "wg2 (final (run2 exServer2 [])) \<noteq> 0"
    by (simp add: exServer2_def)
  have first2: "prefix [Notify 7 StateIdle] ?later \<and>
      run2 exServer2 [Notify 7 StateIdle] = Returned ?u \<and> wg2 ?u = 0 \<and>
      (\<forall>q. strict_prefix q [Notify 7 StateIdle] \<longrightarrow> wg2 (final (run2 exServer2 q)) \<noteq> 0)"
  proof (intro conjI allI impI)
    show "prefix [Notify 7 StateIdle] ?later" by simp
    show "run2 exServer2 [Notify 7 StateIdle] = Returned ?u" by (rule exLater_run2)
    show "wg2 ?u = 0" by simp
    fix q :: "nat event list" assume "strict_prefix q [Notify 7 StateIdle]"
    then have "q = []" by (auto simp: strict_prefix_def prefix_Cons)
    with start2 show "wg2 (final (run2 exServer2 q)) \<noteq> 0" by simp
  qed
  have start1: "wg1 (final (run1 exServer1 [])) \<noteq> 0"
    by (simp add: exServer1_def)
  have first1: "prefix [Notify 7 StateIdle] ?later \<and>
      run1 exServer1 [Notify 7 StateIdle] = Returned ?v \<and> wg1 ?v = 0 \<and>
      (\<forall>q. strict_prefix q [Notify 7 StateIdle] \<longrightarrow> wg1 (final (run1 exServer1 q)) \<noteq> 0)"
  proof (intro conjI allI impI)
    show "prefix [Notify 7 StateIdle] ?later" by simp
    show "run1 exServer1 [Notify 7 StateIdle] = Returned ?v" by (rule exLater_run1)
    show "wg1 ?v = 0" by simp
    fix q :: "nat event list" assume "strict_prefix q [Notify 7 StateIdle]"
    then have "q = []" by (auto simp: strict_prefix_def prefix_Cons)
    with start1 show "wg1 (final (run1 exServer1 q)) \<noteq> 0" by simp
  qed
  have flags: "closing2 exServer2 = 1" "closing2 (exServer2\<lparr>closing2 := 0\<rparr>) \<noteq> 1"
    by (simp_all add: exServer2_def)
  from serve_return_policy
    [of exServer2 "Some (OtherError ''use of closed network connection'')" ?later]
    flags(1) first2
  have "serveReturn2 exServer2 (Some (OtherError ''use of closed network connection'')) ?later =
          ServeReturns None ?u"
    by blast
  moreover
  from serve_return_policy [of "exServer2\<lparr>closing2 := 0\<rparr>" "Some ?e" "[Notify 7 StateIdle]"]
    flags(2)
  have "serveReturn2 (exServer2\<lparr>closing2 := 0\<rparr>) (Some ?e) [Notify 7 StateIdle] =
          ServeReturns (Some ?e) (exServer2\<lparr>closing2 := 0\<rparr>)"
    by blast
  moreover
  from serve_return_policy [of _ "Some ListenerAlreadyClosed" ?later exServer1] first1
  have "serveReturn1 exServer1 (Some ListenerAlreadyClosed) ?later = ServeReturns None ?v"
    by blast
  moreover
  from serve_return_policy [of _ "Some ?e" "[Notify 7 StateIdle]" exServer1]
  have "serveReturn1 exServer1 (Some ?e) [Notify 7 StateIdle] = ServeReturns (Some ?e) exServer1"
    by blast
  ultimately show ?thesis by blast
qed

text \<open>
  C5: in both versions the callback calls \<^verbatim>\<open>conn.Close()\<close> exactly when the new state is
  \<^verbatim>\<open>StateIdle\<close> and the \<^verbatim>\<open>closing\<close> flag is 1, and then once; with the flag at 0 an idle
  connection is not closed.
\<close>

theorem idle_close_iff_closing:
  "filter (\<lambda>x. x = ConnClose conn) (emitted2 s (connState2 s conn n)) =
     (if n = StateIdle \<and> closing2 s = 1 then [ConnClose conn] else [])
   \<and> filter (\<lambda>x. x = ConnClose conn) (emitted1 t (connState1 t conn n)) =
     (if n = StateIdle \<and> closing1 t = 1 then [ConnClose conn] else [])"
  unfolding emitted2_connState2 emitted1_connState1
  by (simp split: outcome.split)

text \<open>
  C6: on \<^verbatim>\<open>StateClosed\<close> or \<^verbatim>\<open>StateHijacked\<close> the callback of either version lowers the
  drain counter by one when the connection's last observed state is not \<^verbatim>\<open>StateIdle\<close>
  and leaves it alone when it is \<^verbatim>\<open>StateIdle\<close>.
\<close>

theorem closed_decrements_unless_idle:
  assumes "n = StateClosed \<or> n = StateHijacked"
  shows "wg2 (final (connState2 s conn n)) =
           (if lookup2 s conn = StateIdle then wg2 s else wg2 s - 1)
       \<and> wg1 (final (connState1 t conn n)) =
           (if lastHTTPState t conn = StateIdle then wg1 t else wg1 t - 1)"
  using assms by (auto simp: connState2_wg switch2_wg connState1_wg switch1_wg)

theorem closed_decrements_unless_idle_witness:
  "wg2 (final (connState2 exServer2 7 StateClosed)) = 0
   \<and> wg1 (final (connState1 exServer1 7 StateHijacked)) = 0
   \<and> wg2 (final (connState2 (exServer2\<lparr>lastConnState := [7 \<mapsto> StateIdle]\<rparr>) 7 StateClosed)) = 1"
proof -
  have a: "StateClosed = StateClosed \<or> StateClosed = StateHijacked" by simp
  have b: "StateHijacked = StateClosed \<or> StateHijacked = StateHijacked" by simp
  from closed_decrements_unless_idle [OF a, of exServer2 7 exServer1]
  have "wg2 (final (connState2 exServer2 7 StateClosed)) = 0"
    by (simp add: exServer2_def lookup2_def)
  moreover from closed_decrements_unless_idle [OF b, of exServer2 7 exServer1]
  have "wg1 (final (connState1 exServer1 7 StateHijacked)) = 0"
    by (simp add: exServer1_def)
  moreover
  from closed_decrements_unless_idle
    [OF a, of "exServer2\<lparr>lastConnState := [7 \<mapsto> StateIdle]\<rparr>" 7 exServer1]
  have "wg2 (final (connState2 (exServer2\<lparr>lastConnState := [7 \<mapsto> StateIdle]\<rparr>) 7 StateClosed)) = 1"
    by (simp add: exServer2_def lookup2_def)
  ultimately show ?thesis by simp
qed

text \<open>
  C7: when the callback of the second version returns, the connection has no entry in
  \<^verbatim>\<open>lastConnState\<close> if the new state is \<^verbatim>\<open>StateClosed\<close> or \<^verbatim>\<open>StateHijacked\<close>, and its entry
  is the new state otherwise; the entries of other connections are as before. The
  callback returns whenever the counter is not negative and not the largest \<^verbatim>\<open>int32\<close>,
  and no decrement meets a counter of zero. So after any sequence of events in which
  the notifications of every connection arrive in order and fewer than 2^31 connections
  are in flight at any time, on a server that started empty, the map holds the
  connections that have not ended and no others.
\<close>

theorem closed_entry_removed:
  "(0 \<le> sint (wg2 s) \<and> sint (wg2 s) < 2 ^ 31 - 1
      \<and> (n = StateNew \<or> n = StateActive \<or> 0 < sint (wg2 s)
           \<or> (n \<noteq> StateIdle \<and> lookup2 s conn = StateIdle))
      \<longrightarrow> (\<exists>s'. connState2 s conn n = Returned s'))
   \<and> (\<forall>s'. connState2 s conn n = Returned s' \<longrightarrow>
         lastConnState s' conn = (if n = StateClosed \<or> n = StateHijacked then None else Some n)
         \<and> (\<forall>d. d \<noteq> conn \<longrightarrow> lastConnState s' d = lastConnState s d))
   \<and> (wg2 s = 0 \<and> lastConnState s = Map.empty \<and> ordered (\<lambda>_. None) evs
        \<and> (\<forall>p. prefix p evs \<longrightarrow> card (inFlight (track (\<lambda>_. None) p)) < 2 ^ 31) \<longrightarrow>
         (\<exists>s'. run2 s evs = Returned s' \<and>
            dom (lastConnState s') =
              {c. track (\<lambda>_. None) evs c = Some StateNew
                  \<or> track (\<lambda>_. None) evs c = Some StateActive
                  \<or> track (\<lambda>_. None) evs c = Some StateIdle}))"
proof (intro conjI impI)
  assume "0 \<le> sint (wg2 s) \<and> sint (wg2 s) < 2 ^ 31 - 1
      \<and> (n = StateNew \<or> n = StateActive \<or> 0 < sint (wg2 s)
           \<or> (n \<noteq> StateIdle \<and> lookup2 s conn = StateIdle))"
  then show "\<exists>s'. connState2 s conn n = Returned s'"
    using connState2_returns [of s n conn] by simp
next
  show "\<forall>s'. connState2 s conn n = Returned s' \<longrightarrow>
         lastConnState s' conn = (if n = StateClosed \<or> n = StateHijacked then None else Some n)
         \<and> (\<forall>d. d \<noteq> conn \<longrightarrow> lastConnState s' d = lastConnState s d)"
    by (auto simp: connState2_map)
next
  assume a: "wg2 s = 0 \<and> lastConnState s = Map.empty \<and> ordered (\<lambda>_. None) evs
        \<and> (\<forall>p. prefix p evs \<longrightarrow> card (inFlight (track (\<lambda>_. None) p)) < 2 ^ 31)"
  then have "tracks2 s (\<lambda>_. None)" by (simp add: tracks2_def inFlight_def)
  from tracks2_run [OF this, of evs] a obtain s'
    where r: "run2 s evs = Returned s'" and inv: "tracks2 s' (track (\<lambda>_. None) evs)"
    by auto
  have "dom (lastConnState s') =
          {c. track (\<lambda>_. None) evs c = Some StateNew
              \<or> track (\<lambda>_. None) evs c = Some StateActive
              \<or> track (\<lambda>_. None) evs c = Some StateIdle}"
  proof (rule set_eqI)
    fix c
    show "c \<in> dom (lastConnState s') \<longleftrightarrow>
            c \<in> {c. track (\<lambda>_. None) evs c = Some StateNew
                    \<or> track (\<lambda>_. None) evs c = Some StateActive
                    \<or> track (\<lambda>_. None) evs c = Some StateIdle}"
    proof (cases "track (\<lambda>_. None) evs c")
      case None
      with inv show ?thesis by (simp add: tracks2_def dom_def)
    next
      case (Some st)
      with inv show ?thesis by (cases st) (simp_all add: tracks2_def dom_def)
    qed
  qed
  with r show "\<exists>s'. run2 s evs = Returned s' \<and>
            dom (lastConnState s') =
              {c. track (\<lambda>_. None) evs c = Some StateNew
                  \<or> track (\<lambda>_. None) evs c = Some StateActive
                  \<or> track (\<lambda>_. None) evs c = Some StateIdle}"
    by blast
qed

lemma exEvents_open:
  "{c. track (\<lambda>_. None) exEvents c = Some StateNew
       \<or> track (\<lambda>_. None) exEvents c = Some StateActive
       \<or> track (\<lambda>_. None) exEvents c = Some StateIdle} = {2}"
  by (auto simp: exEvents_def)

theorem closed_entry_removed_witness:
  "(\<exists>s'. connState2 exServer2 7 StateClosed = Returned s' \<and> lastConnState s' 7 = None)
   \<and> (\<exists>s'. connState2 exServer2 7 StateIdle = Returned s' \<and> lastConnState s' 7 = Some StateIdle)
   \<and> (\<exists>s'. run2 (NewWithServer2 '':8080'' False) exEvents = Returned s'
          \<and> dom (lastConnState s') = {2})"
proof -
  have pre: "0 \<le> sint (wg2 exServer2)" "sint (wg2 exServer2) < 2 ^ 31 - 1"
    "0 < sint (wg2 exServer2)"
    by (simp_all add: exServer2_def)
  have fresh: "wg2 (NewWithServer2 '':8080'' False :: nat GracefulServer2) = 0"
    "lastConnState (NewWithServer2 '':8080'' False :: nat GracefulServer2) = Map.empty"
    "ordered (\<lambda>_. None) exEvents"
    "\<forall>p. prefix p exEvents \<longrightarrow> card (inFlight (track (\<lambda>_. None) p)) < 2 ^ 31"
    using exEvents_fit by (simp_all add: NewWithServer2_def exEvents_def)
  from closed_entry_removed [of exServer2 StateClosed 7 "[]"] pre
  have "\<exists>s'. connState2 exServer2 7 StateClosed = Returned s' \<and> lastConnState s' 7 = None"
    by auto
  moreover from closed_entry_removed [of exServer2 StateIdle 7 "[]"] pre
  have "\<exists>s'. connState2 exServer2 7 StateIdle = Returned s' \<and> lastConnState s' 7 = Some StateIdle"
    by auto
  moreover
  from closed_entry_removed [of "NewWithServer2 '':8080'' False" StateNew 7 exEvents] fresh
  have "\<exists>s'. run2 (NewWithServer2 '':8080'' False) exEvents = Returned s'
          \<and> dom (lastConnState s') = {2}"
    by (simp add: exEvents_open)
  ultimately show ?thesis by simp
qed

text \<open>
  C8: when the callback returns, it has forwarded the notification; it returns whenever
  the counter is not negative and not the largest \<^verbatim>\<open>int32\<close>, and no decrement meets a
  counter of zero. The first version
  calls the injected \<^verbatim>\<open>stateHandler\<close>, if there is one, with the connection, the state
  stored before this notification and the new state, and then the \<^verbatim>\<open>ConnState\<close> hook
  that was on the wrapped server, if there was one, with the connection and the new
  state. The second version has no injected handler and calls the hook of the wrapped
  server. The log shows these calls after the \<^verbatim>\<open>conn.Close()\<close> of an idle connection
  during shutdown, and nothing else.
\<close>

theorem notifications_forwarded:
  "(0 \<le> sint (wg1 t) \<and> sint (wg1 t) < 2 ^ 31 - 1
      \<and> (n = StateNew \<or> n = StateActive \<or> 0 < sint (wg1 t)
           \<or> (n \<noteq> StateIdle \<and> lastHTTPState t conn = StateIdle))
      \<longrightarrow> (\<exists>t'. connState1 t conn n = Returned t'))
   \<and> (\<forall>t'. connState1 t conn n = Returned t' \<longrightarrow>
         calls1 t' = calls1 t
           @ (if n = StateIdle \<and> closing1 t = 1 then [ConnClose conn] else [])
           @ (if stateHandler t then [StateHandlerCall conn (lastHTTPState t conn) n] else [])
           @ (if orgConnState t then [ConnStateCall conn n] else []))
   \<and> (0 \<le> sint (wg2 s) \<and> sint (wg2 s) < 2 ^ 31 - 1
      \<and> (n = StateNew \<or> n = StateActive \<or> 0 < sint (wg2 s)
           \<or> (n \<noteq> StateIdle \<and> lookup2 s conn = StateIdle))
      \<longrightarrow> (\<exists>s'. connState2 s conn n = Returned s'))
   \<and> (\<forall>s'. connState2 s conn n = Returned s' \<longrightarrow>
         calls2 s' = calls2 s
           @ (if n = StateIdle \<and> closing2 s = 1 then [ConnClose conn] else [])
           @ (if originalConnState s then [ConnStateCall conn n] else []))"
proof (intro conjI allI impI)
  fix t' assume r: "connState1 t conn n = Returned t'"
  then obtain t1 where sw: "switch1 t conn n = Returned t1"
    by (auto simp: connState1_def split: outcome.splits)
  show "calls1 t' = calls1 t
           @ (if n = StateIdle \<and> closing1 t = 1 then [ConnClose conn] else [])
           @ (if stateHandler t then [StateHandlerCall conn (lastHTTPState t conn) n] else [])
           @ (if orgConnState t then [ConnStateCall conn n] else [])"
    using connState1_calls [of t conn n] switch1_calls [of t conn n] r sw by simp
next
  fix s' assume r: "connState2 s conn n = Returned s'"
  then obtain s1 where sw: "switch2 s conn (lookup2 s conn) n = Returned s1"
    by (auto simp: connState2_def split: outcome.splits)
  show "calls2 s' = calls2 s
           @ (if n = StateIdle \<and> closing2 s = 1 then [ConnClose conn] else [])
           @ (if originalConnState s then [ConnStateCall conn n] else [])"
    using connState2_calls [of s conn n] switch2_calls [of s conn "lookup2 s conn" n] r sw by simp
next
  assume "0 \<le> sint (wg1 t) \<and> sint (wg1 t) < 2 ^ 31 - 1
      \<and> (n = StateNew \<or> n = StateActive \<or> 0 < sint (wg1 t)
           \<or> (n \<noteq> StateIdle \<and> lastHTTPState t conn = StateIdle))"
  then show "\<exists>t'. connState1 t conn n = Returned t'"
    using connState1_returns [of t n conn] by simp
next
  assume "0 \<le> sint (wg2 s) \<and> sint (wg2 s) < 2 ^ 31 - 1
      \<and> (n = StateNew \<or> n = StateActive \<or> 0 < sint (wg2 s)
           \<or> (n \<noteq> StateIdle \<and> lookup2 s conn = StateIdle))"
  then show "\<exists>s'. connState2 s conn n = Returned s'"
    using connState2_returns [of s n conn] by simp
qed

theorem notifications_forwarded_witness:
  "(\<exists>t'. connState1 exServer1 7 StateIdle = Returned t' \<and>
      calls1 t' = [SetKeepAlivesEnabled False, ListenerClose, ConnClose 7,
                   StateHandlerCall 7 StateActive StateIdle, ConnStateCall 7 StateIdle])
   \<and> (\<exists>s'. connState2 exServer2 7 StateIdle = Returned s' \<and>
      calls2 s' = [SetKeepAlivesEnabled False, ListenerClose, ConnClose 7,
                   ConnStateCall 7 StateIdle])"
proof -
  have pre: "0 \<le> sint (wg1 exServer1)" "sint (wg1 exServer1) < 2 ^ 31 - 1"
    "0 < sint (wg1 exServer1)" "0 \<le> sint (wg2 exServer2)"
    "sint (wg2 exServer2) < 2 ^ 31 - 1" "0 < sint (wg2 exServer2)"
    by (simp_all add: exServer1_def exServer2_def)
  have vals: "calls1 exServer1 = [SetKeepAlivesEnabled False, ListenerClose]"
    "calls2 exServer2 = [SetKeepAlivesEnabled False, ListenerClose]"
    "closing1 exServer1 = 1" "closing2 exServer2 = 1" "stateHandler exServer1"
    "orgConnState exServer1" "originalConnState exServer2"
    "lastHTTPState exServer1 7 = StateActive"
    by (simp_all add: exServer1_def exServer2_def)
  from notifications_forwarded [of exServer1 StateIdle 7 exServer2] pre
  show ?thesis by (auto simp: vals)
qed




text \<open>
  C10: for a Unix-socket address, a file found at the path is removed before the listen
  call; an error of \<^verbatim>\<open>os.Stat\<close> other than not-exist and an error of \<^verbatim>\<open>os.Remove\<close> are
  returned with no listen call made.
\<close>

theorem unix_socket_removed_before_listen:
  assumes "isUnixNetwork2 bind"
  shows "(osStat env bind = None \<longrightarrow>
            fst (listen env bind) =
              [Stat bind, Remove bind] @
              (if osRemove env bind = None then [Listen ''unix'' bind] else []))
       \<and> (\<forall>e. osStat env bind = Some e \<and> \<not> IsNotExist e \<longrightarrow>
            listen env bind = ([Stat bind], Inl e))
       \<and> (\<forall>e. osStat env bind = None \<and> osRemove env bind = Some e \<longrightarrow>
            listen env bind = ([Stat bind, Remove bind], Inl e))
       \<and> (osStat env bind = None \<and> osRemove env bind = None \<longrightarrow>
            snd (listen env bind) = netListen env ''unix'' bind)"
  using assms by (auto simp: listen_def listenToUnix_def split: option.splits)

theorem unix_socket_removed_before_listen_witness:
  "fst (listen exOs ''/run/app.sock'') =
     [Stat ''/run/app.sock'', Remove ''/run/app.sock'', Listen ''unix'' ''/run/app.sock'']
   \<and> snd (listen exOs ''/run/app.sock'') = Inr (UnixListener ''/run/app.sock'')
   \<and> listen (exOs\<lparr>osStat := (\<lambda>_. Some (OtherError ''permission denied''))\<rparr>) ''/run/app.sock'' =
       ([Stat ''/run/app.sock''], Inl (OtherError ''permission denied''))
   \<and> listen (exOs\<lparr>osRemove := (\<lambda>_. Some (OtherError ''read-only file system''))\<rparr>)
         ''/run/app.sock'' =
       ([Stat ''/run/app.sock'', Remove ''/run/app.sock''],
        Inl (OtherError ''read-only file system''))"
proof -
  let ?b = "''/run/app.sock''"
  have u: "isUnixNetwork2 ?b" by (simp add: isUnixNetwork2_def)
  from unix_socket_removed_before_listen [OF u, of exOs]
  have "fst (listen exOs ?b) = [Stat ?b, Remove ?b, Listen ''unix'' ?b]"
    and "snd (listen exOs ?b) = Inr (UnixListener ?b)"
    by (simp_all add: exOs_def)
  moreover
  from unix_socket_removed_before_listen
    [OF u, of "exOs\<lparr>osStat := (\<lambda>_. Some (OtherError ''permission denied''))\<rparr>"]
  have "listen (exOs\<lparr>osStat := (\<lambda>_. Some (OtherError ''permission denied''))\<rparr>) ?b =
          ([Stat ?b], Inl (OtherError ''permission denied''))"
    by (simp add: exOs_def IsNotExist_def)
  moreover
  from unix_socket_removed_before_listen
    [OF u, of "exOs\<lparr>osRemove := (\<lambda>_. Some (OtherError ''read-only file system''))\<rparr>"]
  have "listen (exOs\<lparr>osRemove := (\<lambda>_. Some (OtherError ''read-only file system''))\<rparr>) ?b =
          ([Stat ?b, Remove ?b], Inl (OtherError ''read-only file system''))"
    by (simp add: exOs_def)
  ultimately show ?thesis by simp
qed

end
